theory Spec2Isabelle
  imports Main "HOL-Library.Word"
begin

section \<open>JavaScript strings\<close>

text \<open>
  A JavaScript string is a sequence of UTF-16 code units. Every string operation the
  plugin uses (indexing, \<^verbatim>\<open>indexOf\<close>, \<^verbatim>\<open>lastIndexOf\<close>, \<^verbatim>\<open>slice\<close>, regular expressions
  without the \<^verbatim>\<open>u\<close> flag) works on code units, so a string is a list of 16-bit words.
  Only \<^verbatim>\<open>codePointAt\<close> looks at surrogate pairs.
\<close>

type_synonym jsstring = "16 word list"

text \<open>\<^verbatim>\<open>s.indexOf(v)\<close>: the least index at which \<open>v\<close> occurs in \<open>s\<close>, or \<open>-1\<close>.\<close>

fun indexOf_from :: "nat \<Rightarrow> jsstring \<Rightarrow> jsstring \<Rightarrow> int" where
  "indexOf_from k [] v = (if v = [] then int k else - 1)"
| "indexOf_from k (x # xs) v =
     (if take (length v) (x # xs) = v then int k else indexOf_from (Suc k) xs v)"

definition indexOf :: "jsstring \<Rightarrow> jsstring \<Rightarrow> int" where
  "indexOf s v = indexOf_from 0 s v"

text \<open>\<^verbatim>\<open>s.lastIndexOf(v)\<close>: the greatest index at which \<open>v\<close> occurs in \<open>s\<close>, or \<open>-1\<close>.\<close>

fun lastIndexOf_from :: "nat \<Rightarrow> jsstring \<Rightarrow> jsstring \<Rightarrow> int" where
  "lastIndexOf_from k [] v = (if v = [] then int k else - 1)"
| "lastIndexOf_from k (x # xs) v =
     (let r = lastIndexOf_from (Suc k) xs v
      in if r \<noteq> - 1 then r
         else if take (length v) (x # xs) = v then int k else - 1)"

definition lastIndexOf :: "jsstring \<Rightarrow> jsstring \<Rightarrow> int" where
  "lastIndexOf s v = lastIndexOf_from 0 s v"

text \<open>
  \<^verbatim>\<open>s.slice(start, end)\<close> on integer arguments: a negative index counts from the end,
  both are clamped to the string. \<^verbatim>\<open>s.slice(start)\<close> runs to the end of the string.
\<close>

definition slice_index :: "jsstring \<Rightarrow> int \<Rightarrow> nat" where
  "slice_index s i =
     (if i < 0 then nat (max (int (length s) + i) 0) else nat (min i (int (length s))))"

definition slice :: "jsstring \<Rightarrow> int \<Rightarrow> int \<Rightarrow> jsstring" where
  "slice s start end =
     take (slice_index s end - slice_index s start) (drop (slice_index s start) s)"

definition slice_from :: "jsstring \<Rightarrow> int \<Rightarrow> jsstring" where
  "slice_from s start = drop (slice_index s start) s"

text \<open>
  \<^verbatim>\<open>s.match(re)\<close> for the global regular expression of \<^verbatim>\<open>addToneMark\<close>, the class of
  the six letters i, I, u, U, u-diaeresis and U-diaeresis with the \<^verbatim>\<open>g\<close> flag: the result
  is the array of all matches in order, or \<^verbatim>\<open>null\<close> when there is none. Each match is a
  one-unit string. The two letters with diaeresis are the precomposed U+00FC and U+00DC
  in the source file.
\<close>

definition is_iu :: "16 word \<Rightarrow> bool" where
  "is_iu c \<longleftrightarrow> c = 0x69 \<or> c = 0x49 \<or> c = 0x75 \<or> c = 0x55 \<or> c = 0xFC \<or> c = 0xDC"

definition match_iu :: "jsstring \<Rightarrow> jsstring list option" where
  "match_iu s =
     (let ms = map (\<lambda>c. [c]) (filter is_iu s)
      in if ms = [] then None else Some ms)"

section \<open>Tone marks\<close>

text \<open>
  The table \<^verbatim>\<open>toneMap\<close> of \<^verbatim>\<open>addToneMark\<close>, keyed by the letter, each row holding the
  four marked forms in the order tone 1 to tone 4. All forty-eight entries of the source
  are precomposed letters of the Basic Multilingual Plane, one code unit each.
\<close>

definition toneMap :: "jsstring \<Rightarrow> jsstring list option" where
  "toneMap = map_of
     [([0x61], [[0x101], [0xE1], [0x1CE], [0xE0]]),
      ([0x65], [[0x113], [0xE9], [0x11B], [0xE8]]),
      ([0x69], [[0x12B], [0xED], [0x1D0], [0xEC]]),
      ([0x6F], [[0x14D], [0xF3], [0x1D2], [0xF2]]),
      ([0x75], [[0x16B], [0xFA], [0x1D4], [0xF9]]),
      ([0xFC], [[0x1D6], [0x1D8], [0x1DA], [0x1DC]]),
      ([0x41], [[0x100], [0xC1], [0x1CD], [0xC0]]),
      ([0x45], [[0x112], [0xC9], [0x11A], [0xC8]]),
      ([0x49], [[0x12A], [0xCD], [0x1CF], [0xCC]]),
      ([0x4F], [[0x14C], [0xD3], [0x1D1], [0xD2]]),
      ([0x55], [[0x16A], [0xDA], [0x1D3], [0xD9]]),
      ([0xDC], [[0x1D5], [0x1D7], [0x1D9], [0x1DB]])]"

text \<open>\<^verbatim>\<open>vowelsOrder = ["a", "A", "o", "O", "e", "E"]\<close>\<close>

definition vowelsOrder :: "jsstring list" where
  "vowelsOrder = [[0x61], [0x41], [0x6F], [0x4F], [0x65], [0x45]]"

text \<open>
  The \<^verbatim>\<open>for (const v of vowelsOrder)\<close> loop: it returns the pair
  \<open>(targetIdx, chosenVowel)\<close> as the loop leaves it. When no letter is found,
  \<open>targetIdx\<close> is \<open>-1\<close> and \<open>chosenVowel\<close> is still the empty string.
\<close>

fun find_vowel :: "jsstring \<Rightarrow> jsstring list \<Rightarrow> int \<times> jsstring" where
  "find_vowel syllable [] = (- 1, [])"
| "find_vowel syllable (v # vs) =
     (let targetIdx = indexOf syllable v
      in if targetIdx \<noteq> - 1 then (targetIdx, v) else find_vowel syllable vs)"

text \<open>
  The fallback block \<^verbatim>\<open>if (targetIdx === -1) { ... }\<close>: the last match of the global
  regular expression becomes the chosen vowel, at its \<^verbatim>\<open>lastIndexOf\<close>.
\<close>

definition fallback_vowel :: "jsstring \<Rightarrow> int \<times> jsstring \<Rightarrow> int \<times> jsstring" where
  "fallback_vowel syllable found =
     (if fst found = - 1 then
        (case match_iu syllable of
           None \<Rightarrow> found
         | Some vowelMatch \<Rightarrow>
             (let lastVowel = vowelMatch ! (length vowelMatch - 1)
              in (lastIndexOf syllable lastVowel, lastVowel)))
      else found)"

text \<open>
  \<^verbatim>\<open>addToneMark(syllable, tone)\<close>. The tone is a JavaScript number; the only caller passes
  \<^verbatim>\<open>parseInt\<close> of one decimal digit or the literal 0, so it is modelled as an integer.
\<close>

definition addToneMark :: "jsstring \<Rightarrow> int \<Rightarrow> jsstring" where
  "addToneMark syllable tone =
     (if tone < 1 \<or> tone > 4 then syllable
      else
        (let (targetIdx, chosenVowel) = fallback_vowel syllable (find_vowel syllable vowelsOrder)
         in if targetIdx \<noteq> - 1 then
              (case toneMap chosenVowel of
                 Some marks \<Rightarrow>
                   slice syllable 0 targetIdx @ marks ! nat (tone - 1)
                     @ slice_from syllable (targetIdx + 1)
               | None \<Rightarrow> syllable)
            else syllable))"

section \<open>Parsing a numeric romanization and resolving its colour\<close>

record ToneColorSettings =
  tone1 :: jsstring
  tone2 :: jsstring
  tone3 :: jsstring
  tone4 :: jsstring
  tone0 :: jsstring

text \<open>An ASCII literal as a JavaScript string.\<close>

definition ascii :: "string \<Rightarrow> jsstring" where
  "ascii cs = map (\<lambda>c. of_nat (of_char c)) cs"

definition DEFAULT_SETTINGS :: ToneColorSettings where
  "DEFAULT_SETTINGS =
     \<lparr>tone1 = ascii ''blue'', tone2 = ascii ''green'', tone3 = ascii ''black'',
      tone4 = ascii ''red'', tone0 = ascii ''gray''\<rparr>"

text \<open>
  The regular expression of \<^verbatim>\<open>getAccentedColoredPinyin\<close> is anchored at both ends and has
  the flag \<^verbatim>\<open>i\<close> but not \<^verbatim>\<open>u\<close>: group 1 is one or more units of the class a-z with
  u-diaeresis (U+00FC) and U-diaeresis (U+00DC), group 2 is an optional \<^verbatim>\<open>\d\<close>.
  Without the \<^verbatim>\<open>u\<close> flag, ignoring case compares the upper-case forms of single units and
  never maps a unit of 128 or more to one below 128, so the class matches exactly the
  letters a-z, A-Z, U+00FC and U+00DC; \<^verbatim>\<open>\d\<close> is 0-9.
\<close>

definition is_letter :: "16 word \<Rightarrow> bool" where
  "is_letter c \<longleftrightarrow> (0x61 \<le> c \<and> c \<le> 0x7A) \<or> (0x41 \<le> c \<and> c \<le> 0x5A) \<or> c = 0xFC \<or> c = 0xDC"

definition is_digit :: "16 word \<Rightarrow> bool" where
  "is_digit c \<longleftrightarrow> 0x30 \<le> c \<and> c \<le> 0x39"

text \<open>
  \<^verbatim>\<open>numericPinyin.match(re)\<close>: \<open>None\<close> is \<^verbatim>\<open>null\<close>; otherwise the two groups, the second
  one \<open>None\<close> when it did not take part (\<^verbatim>\<open>undefined\<close>). Group 1 is greedy; a letter is
  never a digit, so giving letters back cannot make the rest match and the longest run of
  letters is the only candidate.
\<close>

definition match_pinyin :: "jsstring \<Rightarrow> (jsstring \<times> jsstring option) option" where
  "match_pinyin s =
     (let base = takeWhile is_letter s; rest = dropWhile is_letter s
      in if base = [] then None
         else (case rest of
                 [] \<Rightarrow> Some (base, None)
               | [d] \<Rightarrow> if is_digit d then Some (base, Some [d]) else None
               | _ \<Rightarrow> None))"

text \<open>
  \<^verbatim>\<open>parseInt(toneStr, 10)\<close> on a string that starts with a decimal digit: the value of its
  leading digits. Group 2 is always one digit, so \<^verbatim>\<open>NaN\<close> does not arise.
\<close>

definition parseInt10 :: "jsstring \<Rightarrow> int" where
  "parseInt10 s = foldl (\<lambda>n c. 10 * n + (uint c - 0x30)) 0 (takeWhile is_digit s)"

record PinyinResult =
  accented :: jsstring
  color :: jsstring

definition getAccentedColoredPinyin :: "jsstring \<Rightarrow> ToneColorSettings \<Rightarrow> PinyinResult" where
  "getAccentedColoredPinyin numericPinyin settings =
     (case match_pinyin numericPinyin of
        None \<Rightarrow> \<lparr>accented = numericPinyin, color = tone0 settings\<rparr>
      | Some (base, toneStr) \<Rightarrow>
          (let tone = (case toneStr of Some t \<Rightarrow> parseInt10 t | None \<Rightarrow> 0);
               col = (if tone = 1 then tone1 settings
                      else if tone = 2 then tone2 settings
                      else if tone = 3 then tone3 settings
                      else if tone = 4 then tone4 settings
                      else tone0 settings)
           in \<lparr>accented = addToneMark base tone, color = col\<rparr>))"

section \<open>Scanning the viewport\<close>

text \<open>\<^verbatim>\<open>isChineseChar\<close>: the regular expression is not anchored, it tests for some unit in the range.\<close>

definition isChineseChar :: "jsstring \<Rightarrow> bool" where
  "isChineseChar char = list_ex (\<lambda>c. 0x4E00 \<le> c \<and> c \<le> 0x9FFF) char"

text \<open>
  \<^verbatim>\<open>s.codePointAt(pos)\<close>: \<^verbatim>\<open>undefined\<close> past the end; a high surrogate followed by a low
  surrogate is decoded as one code point above U+FFFF; any other unit is its own value.
\<close>

definition codePointAt :: "jsstring \<Rightarrow> nat \<Rightarrow> nat option" where
  "codePointAt s pos =
     (if length s \<le> pos then None
      else
        (let first = s ! pos
         in if first < 0xD800 \<or> 0xDBFF < first \<or> Suc pos = length s then Some (unat first)
            else
              (let second = s ! Suc pos
               in if second < 0xDC00 \<or> 0xDFFF < second then Some (unat first)
                  else Some ((unat first - 0xD800) * 0x400 + (unat second - 0xDC00) + 0x10000))))"

text \<open>\<^verbatim>\<open>text[pos]\<close>: the one-unit string at \<open>pos\<close>, or \<^verbatim>\<open>undefined\<close> past the end.\<close>

definition char_at :: "jsstring \<Rightarrow> nat \<Rightarrow> jsstring option" where
  "char_at text pos = (if pos < length text then Some [text ! pos] else None)"

text \<open>
  \<^verbatim>\<open>char.codePointAt(0)! > 0xffff ? 2 : 1\<close>. The comparison of \<^verbatim>\<open>undefined\<close> with a number is
  false.
\<close>

definition charSize_of :: "jsstring \<Rightarrow> nat" where
  "charSize_of char =
     (case codePointAt char 0 of Some cp \<Rightarrow> if cp > 0xffff then 2 else 1 | None \<Rightarrow> 1)"

datatype error = TypeError

text \<open>
  A mark decoration carries the two attributes the plugin sets. The range set builder is
  the list of the calls \<^verbatim>\<open>builder.add(from, to, deco)\<close> in the order they are made, and
  \<^verbatim>\<open>builder.finish()\<close> returns it.
\<close>

record Decoration =
  style :: jsstring
  title :: jsstring

type_synonym DecorationSet = "(nat \<times> nat \<times> Decoration) list"

text \<open>
  The romanizer \<^verbatim>\<open>pinyin(char, { toneType: 'num', type: 'array' })\<close> of the package
  pinyin-pro is a parameter: a function from a string to an array of strings.
\<close>

type_synonym romanizer = "jsstring \<Rightarrow> jsstring list"

text \<open>
  One turn of the \<^verbatim>\<open>for\<close> loop of \<^verbatim>\<open>computeDecorations\<close> at position \<open>pos\<close>: the next
  position and the builder. Reading \<^verbatim>\<open>text[pos]\<close> past the end of the text gives
  \<^verbatim>\<open>undefined\<close>, and the call \<^verbatim>\<open>char.codePointAt(0)\<close> on it throws a TypeError.
\<close>

definition loop_body ::
  "romanizer \<Rightarrow> ToneColorSettings \<Rightarrow> jsstring \<Rightarrow> nat \<Rightarrow> DecorationSet
     \<Rightarrow> error + (nat \<times> DecorationSet)" where
  "loop_body pinyin settings text pos builder =
     (case char_at text pos of
        None \<Rightarrow> Inl TypeError
      | Some char \<Rightarrow>
          (let charSize = charSize_of char;
               builder' =
                 (if isChineseChar char then
                    (let pyArr = pinyin char;
                         numericPinyin = (case pyArr of [] \<Rightarrow> [] | p # _ \<Rightarrow> p);
                         r = getAccentedColoredPinyin numericPinyin settings;
                         deco = \<lparr>style = ascii ''color:'' @ color r @ ascii '';'',
                                 title = accented r\<rparr>
                     in builder @ [(pos, pos + charSize, deco)])
                  else builder)
           in Inr (pos + charSize, builder')))"

lemma loop_body_advances:
  "loop_body pinyin settings text pos builder = Inr (pos', builder') \<Longrightarrow> pos < pos'"
  by (auto simp: loop_body_def charSize_of_def Let_def split: option.splits if_splits)

function scan ::
  "romanizer \<Rightarrow> ToneColorSettings \<Rightarrow> jsstring \<Rightarrow> nat \<Rightarrow> nat \<Rightarrow> DecorationSet
     \<Rightarrow> error + DecorationSet" where
  "scan pinyin settings text to pos builder =
     (if pos < to then
        (case loop_body pinyin settings text pos builder of
           Inl e \<Rightarrow> Inl e
         | Inr (pos', builder') \<Rightarrow> scan pinyin settings text to pos' builder')
      else Inr builder)"
  by pat_completeness auto
termination
  by (relation "measure (\<lambda>(pinyin, settings, text, to, pos, builder). to - pos)")
     (auto dest: loop_body_advances)

declare scan.simps [simp del]

record EditorView =
  doc :: jsstring
  viewport_from :: nat
  viewport_to :: nat

definition computeDecorations ::
  "romanizer \<Rightarrow> EditorView \<Rightarrow> ToneColorSettings \<Rightarrow> error + DecorationSet" where
  "computeDecorations pinyin view settings =
     scan pinyin settings (doc view) (viewport_to view) (viewport_from view) []"

section \<open>Notions of the specification\<close>

text \<open>
  The specification's priority letters a, A, o, O, e, E, in that order, and its fallback
  letters i, I, u, U, u-diaeresis, U-diaeresis. Together they are the twelve letters that
  can carry a tone mark.
\<close>

definition priority_letters :: "16 word list" where
  "priority_letters = [0x61, 0x41, 0x6F, 0x4F, 0x65, 0x45]"

definition fallback_letters :: "16 word list" where
  "fallback_letters = [0x69, 0x49, 0x75, 0x55, 0xFC, 0xDC]"

definition is_markable :: "16 word \<Rightarrow> bool" where
  "is_markable c \<longleftrightarrow> c \<in> set priority_letters \<or> c \<in> set fallback_letters"

text \<open>
  The diacritic of each tone as its Unicode combining character: macron U+0304 for
  tone 1, acute U+0301 for tone 2, caron U+030C for tone 3, grave U+0300 for tone 4.
\<close>

definition combining_mark :: "int \<Rightarrow> 16 word option" where
  "combining_mark tone =
     (if tone = 1 then Some 0x304 else if tone = 2 then Some 0x301
      else if tone = 3 then Some 0x30C else if tone = 4 then Some 0x300 else None)"

text \<open>
  The canonical decompositions of the Unicode Character Database into one of the twelve
  letters and one of the four combining characters: the precomposed letter, then the
  letter and the diacritic it carries.
\<close>

definition canonical_decomposition :: "16 word \<Rightarrow> (16 word \<times> 16 word) option" where
  "canonical_decomposition = map_of
     [(0xC0, (0x41, 0x300)), (0xC1, (0x41, 0x301)), (0xC8, (0x45, 0x300)),
      (0xC9, (0x45, 0x301)), (0xCC, (0x49, 0x300)), (0xCD, (0x49, 0x301)),
      (0xD2, (0x4F, 0x300)), (0xD3, (0x4F, 0x301)), (0xD9, (0x55, 0x300)),
      (0xDA, (0x55, 0x301)), (0xE0, (0x61, 0x300)), (0xE1, (0x61, 0x301)),
      (0xE8, (0x65, 0x300)), (0xE9, (0x65, 0x301)), (0xEC, (0x69, 0x300)),
      (0xED, (0x69, 0x301)), (0xF2, (0x6F, 0x300)), (0xF3, (0x6F, 0x301)),
      (0xF9, (0x75, 0x300)), (0xFA, (0x75, 0x301)), (0x100, (0x41, 0x304)),
      (0x101, (0x61, 0x304)), (0x112, (0x45, 0x304)), (0x113, (0x65, 0x304)),
      (0x11A, (0x45, 0x30C)), (0x11B, (0x65, 0x30C)), (0x12A, (0x49, 0x304)),
      (0x12B, (0x69, 0x304)), (0x14C, (0x4F, 0x304)), (0x14D, (0x6F, 0x304)),
      (0x16A, (0x55, 0x304)), (0x16B, (0x75, 0x304)), (0x1CD, (0x41, 0x30C)),
      (0x1CE, (0x61, 0x30C)), (0x1CF, (0x49, 0x30C)), (0x1D0, (0x69, 0x30C)),
      (0x1D1, (0x4F, 0x30C)), (0x1D2, (0x6F, 0x30C)), (0x1D3, (0x55, 0x30C)),
      (0x1D4, (0x75, 0x30C)), (0x1D5, (0xDC, 0x304)), (0x1D6, (0xFC, 0x304)),
      (0x1D7, (0xDC, 0x301)), (0x1D8, (0xFC, 0x301)), (0x1D9, (0xDC, 0x30C)),
      (0x1DA, (0xFC, 0x30C)), (0x1DB, (0xDC, 0x300)), (0x1DC, (0xFC, 0x300))]"

text \<open>
  \<open>marked_at r s i tone\<close>: the string \<open>r\<close> is \<open>s\<close> with the letter at position \<open>i\<close>
  replaced by that letter carrying the diacritic of \<open>tone\<close>, every other position as in
  \<open>s\<close>.
\<close>

definition marked_at :: "jsstring \<Rightarrow> jsstring \<Rightarrow> nat \<Rightarrow> int \<Rightarrow> bool" where
  "marked_at r s i tone \<longleftrightarrow>
     i < length s \<and> r = s[i := r ! i] \<and> r ! i \<noteq> s ! i \<and>
     (case combining_mark tone of
        Some mark \<Rightarrow> canonical_decomposition (r ! i) = Some (s ! i, mark)
      | None \<Rightarrow> False)"

text \<open>
  The shape \<open><letters><optional digit>\<close> with the digit between 0 and \<open>hi\<close>: one or more
  letters (ASCII letters, U+00FC, U+00DC), then at most one digit. The specification's
  Romanization shape allows the digits 0 to 4.
\<close>

definition conforms_upto :: "16 word \<Rightarrow> jsstring \<Rightarrow> bool" where
  "conforms_upto hi s \<longleftrightarrow>
     (s \<noteq> [] \<and> list_all is_letter s) \<or>
     (s \<noteq> [] \<and> butlast s \<noteq> [] \<and> list_all is_letter (butlast s) \<and> 0x30 \<le> last s \<and> last s \<le> hi)"

definition spec_conforms :: "jsstring \<Rightarrow> bool" where
  "spec_conforms s = conforms_upto 0x34 s"

text \<open>
  The character of a text that starts at position \<open>pos\<close> takes two units when its code
  point is above U+FFFF and one otherwise.
\<close>

definition char_width_at :: "jsstring \<Rightarrow> nat \<Rightarrow> nat" where
  "char_width_at text pos =
     (case codePointAt text pos of Some cp \<Rightarrow> if cp > 0xffff then 2 else 1 | None \<Rightarrow> 1)"

text \<open>
  The span from \<open>s\<close> to \<open>e\<close> is the span of one character of the text: a
  character starts at \<open>s\<close> (the unit there is not the second half of a pair) and ends
  at \<open>e\<close>.
\<close>

definition character_span :: "jsstring \<Rightarrow> nat \<Rightarrow> nat \<Rightarrow> bool" where
  "character_span text s e \<longleftrightarrow>
     s < length text \<and> \<not> (0xDC00 \<le> text ! s \<and> text ! s \<le> 0xDFFF) \<and>
     e = s + char_width_at text s"

text \<open>
  A string is a single character when it is exactly the character that starts at its
  position 0: one unit, or a surrogate pair.
\<close>

definition is_single_character :: "jsstring \<Rightarrow> bool" where
  "is_single_character c \<longleftrightarrow> c \<noteq> [] \<and> length c = char_width_at c 0"

text \<open>
  The decoration that the loop of \<^verbatim>\<open>computeDecorations\<close> builds for a Chinese character:
  the colour of its romanization as the style, the accented romanization as the title.
\<close>

definition decoration_for :: "romanizer \<Rightarrow> ToneColorSettings \<Rightarrow> jsstring \<Rightarrow> Decoration" where
  "decoration_for pinyin cfg char =
     (let r = getAccentedColoredPinyin (case pinyin char of [] \<Rightarrow> [] | p # _ \<Rightarrow> p) cfg
      in \<lparr>style = ascii ''color:'' @ color r @ ascii '';'', title = accented r\<rparr>)"

text \<open>
  A romanizer for examples: it knows the two characters U+4E2D ("zhong1") and U+6587
  ("wen2") and returns the empty array for every other string.
\<close>

definition sample_pinyin :: romanizer where
  "sample_pinyin char =
     (if char = [0x4E2D] then [ascii ''zhong1'']
      else if char = [0x6587] then [ascii ''wen2''] else [])"

text \<open>The text "I love" followed by a space and the two characters U+4E2D, U+6587.\<close>

definition sample_view :: EditorView where
  "sample_view =
     \<lparr>doc = ascii ''I love '' @ [0x4E2D, 0x6587], viewport_from = 0, viewport_to = 9\<rparr>"

text \<open>
  The decorations of the example: U+4E2D at 7 in the colour of tone 1 with the title
  "zhong" marked on the o, U+6587 at 8 in the colour of tone 2 with the title "wen" marked
  on the e.
\<close>

definition sample_decorations :: DecorationSet where
  "sample_decorations =
     [(7, 8, \<lparr>style = ascii ''color:blue;'', title = ascii ''zh'' @ [0x14D] @ ascii ''ng''\<rparr>),
      (8, 9, \<lparr>style = ascii ''color:green;'', title = ascii ''w'' @ [0xE9] @ ascii ''n''\<rparr>)]"

section \<open>Searching a string\<close>

lemma indexOf_from_absent: "c \<notin> set s \<Longrightarrow> indexOf_from k s [c] = - 1"
  by (induction s arbitrary: k) auto

lemma indexOf_from_first:
  "i < length s \<Longrightarrow> s ! i = c \<Longrightarrow> \<forall>j<i. s ! j \<noteq> c \<Longrightarrow> indexOf_from k s [c] = int (k + i)"
proof (induction s arbitrary: k i)
  case Nil
  then show ?case by simp
next
  case (Cons x xs)
  show ?case
  proof (cases i)
    case 0
    with Cons.prems show ?thesis by simp
  next
    case (Suc i')
    with Cons.prems have "x \<noteq> c" by auto
    moreover have "indexOf_from (Suc k) xs [c] = int (Suc k + i')"
      using Cons.prems Suc by (intro Cons.IH) auto
    ultimately show ?thesis using Suc by simp
  qed
qed

lemma lastIndexOf_from_absent: "c \<notin> set s \<Longrightarrow> lastIndexOf_from k s [c] = - 1"
  by (induction s arbitrary: k) auto

lemma lastIndexOf_from_last:
  "i < length s \<Longrightarrow> s ! i = c \<Longrightarrow> \<forall>j. i < j \<and> j < length s \<longrightarrow> s ! j \<noteq> c
     \<Longrightarrow> lastIndexOf_from k s [c] = int (k + i)"
proof (induction s arbitrary: k i)
  case Nil
  then show ?case by simp
next
  case (Cons x xs)
  show ?case
  proof (cases i)
    case 0
    have "c \<notin> set xs"
    proof
      assume "c \<in> set xs"
      then obtain j where "j < length xs" "xs ! j = c" by (auto simp: in_set_conv_nth)
      with Cons.prems(3) 0 show False by (auto dest: spec [of _ "Suc j"])
    qed
    then have "lastIndexOf_from (Suc k) xs [c] = - 1" by (rule lastIndexOf_from_absent)
    with Cons.prems 0 show ?thesis by simp
  next
    case (Suc i')
    have "lastIndexOf_from (Suc k) xs [c] = int (Suc k + i')"
    proof (rule Cons.IH)
      show "i' < length xs" using Cons.prems Suc by simp
      show "xs ! i' = c" using Cons.prems Suc by simp
      show "\<forall>j. i' < j \<and> j < length xs \<longrightarrow> xs ! j \<noteq> c"
        using Cons.prems(3) Suc by (auto dest: spec [of _ "Suc j" for j])
    qed
    then show ?thesis using Suc by simp
  qed
qed

lemma first_satisfying:
  "\<exists>c\<in>set s. P c \<Longrightarrow> \<exists>i<length s. P (s ! i) \<and> (\<forall>j<i. \<not> P (s ! j))"
proof (induction s)
  case Nil
  then show ?case by simp
next
  case (Cons x xs)
  show ?case
  proof (cases "P x")
    case True
    then have "0 < length (x # xs) \<and> P ((x # xs) ! 0) \<and> (\<forall>j<0. \<not> P ((x # xs) ! j))" by simp
    then show ?thesis by blast
  next
    case False
    with Cons.prems have "\<exists>c\<in>set xs. P c" by simp
    then obtain i where i: "i < length xs" "P (xs ! i)" "\<forall>j<i. \<not> P (xs ! j)"
      using Cons.IH by blast
    have "\<forall>j<Suc i. \<not> P ((x # xs) ! j)"
      using False i(3) by (auto simp: nth_Cons split: nat.splits)
    with i(1,2) have "Suc i < length (x # xs) \<and> P ((x # xs) ! Suc i) \<and> (\<forall>j<Suc i. \<not> P ((x # xs) ! j))"
      by simp
    then show ?thesis by blast
  qed
qed

lemma last_satisfying:
  "\<exists>c\<in>set s. P c \<Longrightarrow> \<exists>i<length s. P (s ! i) \<and> (\<forall>j. i < j \<and> j < length s \<longrightarrow> \<not> P (s ! j))"
proof (induction s)
  case Nil
  then show ?case by simp
next
  case (Cons x xs)
  show ?case
  proof (cases "\<exists>c\<in>set xs. P c")
    case True
    then obtain i where i: "i < length xs" "P (xs ! i)" "\<forall>j. i < j \<and> j < length xs \<longrightarrow> \<not> P (xs ! j)"
      using Cons.IH by blast
    have "\<forall>j. Suc i < j \<and> j < length (x # xs) \<longrightarrow> \<not> P ((x # xs) ! j)"
      using i(3) by (auto simp: nth_Cons split: nat.splits)
    with i(1,2) have "Suc i < length (x # xs) \<and> P ((x # xs) ! Suc i)
        \<and> (\<forall>j. Suc i < j \<and> j < length (x # xs) \<longrightarrow> \<not> P ((x # xs) ! j))"
      by simp
    then show ?thesis by blast
  next
    case False
    with Cons.prems have "P x" by auto
    moreover have "\<forall>j. 0 < j \<and> j < length (x # xs) \<longrightarrow> \<not> P ((x # xs) ! j)"
      using False by (auto simp: nth_Cons split: nat.splits)
    ultimately have "0 < length (x # xs) \<and> P ((x # xs) ! 0)
        \<and> (\<forall>j. 0 < j \<and> j < length (x # xs) \<longrightarrow> \<not> P ((x # xs) ! j))"
      by simp
    then show ?thesis by blast
  qed
qed

lemma filter_after_last:
  "i < length s \<Longrightarrow> P (s ! i) \<Longrightarrow> \<forall>j. i < j \<and> j < length s \<longrightarrow> \<not> P (s ! j)
     \<Longrightarrow> filter P s \<noteq> [] \<and> last (filter P s) = s ! i"
proof -
  assume a: "i < length s" "P (s ! i)" "\<forall>j. i < j \<and> j < length s \<longrightarrow> \<not> P (s ! j)"
  have s: "s = take i s @ s ! i # drop (Suc i) s"
    using a(1) by (rule id_take_nth_drop)
  have "\<forall>x\<in>set (drop (Suc i) s). \<not> P x"
  proof
    fix x assume "x \<in> set (drop (Suc i) s)"
    then obtain j where "j < length (drop (Suc i) s)" "drop (Suc i) s ! j = x"
      by (auto simp: in_set_conv_nth)
    then have "Suc i + j < length s" "s ! (Suc i + j) = x" by auto
    with a(3) show "\<not> P x" by (metis less_add_Suc1 add_Suc)
  qed
  then have "filter P (drop (Suc i) s) = []" by (simp add: filter_empty_conv)
  then have "filter P s = filter P (take i s) @ [s ! i]"
    using a(2) by (subst s) simp
  then show ?thesis by simp
qed

section \<open>The vowel that carries the mark\<close>

lemma vowelsOrder_priority: "vowelsOrder = map (\<lambda>c. [c]) priority_letters"
  by (simp add: vowelsOrder_def priority_letters_def)

lemma find_vowel_none:
  "\<forall>c\<in>set cs. c \<notin> set s \<Longrightarrow> find_vowel s (map (\<lambda>c. [c]) cs) = (- 1, [])"
  by (induction cs) (simp_all add: indexOf_def indexOf_from_absent)

lemma find_vowel_priority:
  "k < length cs \<Longrightarrow> \<forall>j<k. cs ! j \<notin> set s \<Longrightarrow> i < length s \<Longrightarrow> s ! i = cs ! k
     \<Longrightarrow> \<forall>j<i. s ! j \<noteq> cs ! k
     \<Longrightarrow> find_vowel s (map (\<lambda>c. [c]) cs) = (int i, [cs ! k])"
proof (induction cs arbitrary: k)
  case Nil
  then show ?case by simp
next
  case (Cons c cs)
  show ?case
  proof (cases k)
    case 0
    with Cons.prems have "indexOf_from 0 s [c] = int (0 + i)"
      by (intro indexOf_from_first) auto
    with 0 show ?thesis by (simp add: indexOf_def)
  next
    case (Suc k')
    with Cons.prems(2) have "c \<notin> set s" by auto
    then have c: "indexOf s [c] = - 1" by (simp add: indexOf_def indexOf_from_absent)
    have "find_vowel s (map (\<lambda>c. [c]) cs) = (int i, [cs ! k'])"
    proof (rule Cons.IH)
      show "k' < length cs" using Cons.prems(1) Suc by simp
      show "\<forall>j<k'. cs ! j \<notin> set s" using Cons.prems(2) Suc by auto
      show "i < length s" by (rule Cons.prems(3))
      show "s ! i = cs ! k'" using Cons.prems(4) Suc by simp
      show "\<forall>j<i. s ! j \<noteq> cs ! k'" using Cons.prems(5) Suc by simp
    qed
    with c Suc show ?thesis by simp
  qed
qed

lemma is_iu_fallback: "is_iu c \<longleftrightarrow> c \<in> set fallback_letters"
  by (auto simp: is_iu_def fallback_letters_def)

lemma fallback_vowel_last:
  assumes "\<forall>c\<in>set priority_letters. c \<notin> set s"
    and "i < length s" and "is_iu (s ! i)"
    and "\<forall>j. i < j \<and> j < length s \<longrightarrow> \<not> is_iu (s ! j)"
  shows "fallback_vowel s (find_vowel s vowelsOrder) = (int i, [s ! i])"
proof -
  have none: "find_vowel s vowelsOrder = (- 1, [])"
    using assms(1) by (simp add: vowelsOrder_priority find_vowel_none)
  have f: "filter is_iu s \<noteq> [] \<and> last (filter is_iu s) = s ! i"
    using assms(2-4) by (rule filter_after_last)
  then have m: "match_iu s = Some (map (\<lambda>c. [c]) (filter is_iu s))"
    by (simp add: match_iu_def)
  have l: "map (\<lambda>c. [c]) (filter is_iu s) ! (length (map (\<lambda>c. [c]) (filter is_iu s)) - 1) = [s ! i]"
    using f last_conv_nth [of "filter is_iu s"] by simp
  have "\<forall>j. i < j \<and> j < length s \<longrightarrow> s ! j \<noteq> s ! i"
    using assms(3,4) by metis
  with assms(2) have "lastIndexOf_from 0 s [s ! i] = int (0 + i)"
    by (intro lastIndexOf_from_last) auto
  then have "lastIndexOf s [s ! i] = int i" by (simp add: lastIndexOf_def)
  with none m l show ?thesis by (simp add: fallback_vowel_def Let_def)
qed

lemma fallback_vowel_priority:
  assumes "k < length priority_letters" and "\<forall>j<k. priority_letters ! j \<notin> set s"
    and "i < length s" and "s ! i = priority_letters ! k" and "\<forall>j<i. s ! j \<noteq> priority_letters ! k"
  shows "fallback_vowel s (find_vowel s vowelsOrder) = (int i, [s ! i])"
proof -
  have "find_vowel s vowelsOrder = (int i, [priority_letters ! k])"
    unfolding vowelsOrder_priority using assms by (rule find_vowel_priority)
  then show ?thesis using assms(4) by (simp add: fallback_vowel_def)
qed

lemma fallback_vowel_nothing:
  assumes "\<forall>c\<in>set s. \<not> is_markable c"
  shows "fallback_vowel s (find_vowel s vowelsOrder) = (- 1, [])"
proof -
  have "\<forall>c\<in>set priority_letters. c \<notin> set s"
    using assms by (auto simp: is_markable_def)
  then have none: "find_vowel s vowelsOrder = (- 1, [])"
    by (simp add: vowelsOrder_priority find_vowel_none)
  have "filter is_iu s = []"
    using assms by (auto simp: filter_empty_conv is_markable_def is_iu_fallback)
  then have "match_iu s = None" by (simp add: match_iu_def)
  with none show ?thesis by (simp add: fallback_vowel_def)
qed

lemma toneMap_row:
  assumes "is_markable c" and "1 \<le> tone" and "tone \<le> 4"
  shows "\<exists>marks m mark. toneMap [c] = Some marks \<and> marks ! nat (tone - 1) = [m]
           \<and> combining_mark tone = Some mark \<and> canonical_decomposition m = Some (c, mark) \<and> m \<noteq> c"
proof -
  have c: "c = 0x61 \<or> c = 0x41 \<or> c = 0x6F \<or> c = 0x4F \<or> c = 0x65 \<or> c = 0x45
         \<or> c = 0x69 \<or> c = 0x49 \<or> c = 0x75 \<or> c = 0x55 \<or> c = 0xFC \<or> c = 0xDC"
    using assms(1) by (auto simp: is_markable_def priority_letters_def fallback_letters_def)
  have t: "tone = 1 \<or> tone = 2 \<or> tone = 3 \<or> tone = 4" using assms(2,3) by arith
  show ?thesis
    using c t by (elim disjE) (simp_all add: toneMap_def combining_mark_def canonical_decomposition_def)
qed

lemma slices_update:
  "i < length s \<Longrightarrow> slice s 0 (int i) @ [m] @ slice_from s (int i + 1) = s[i := m]"
proof -
  assume i: "i < length s"
  have "nat (int i + 1) = Suc i" by simp
  with i show ?thesis
    by (simp add: slice_def slice_from_def slice_index_def upd_conv_take_nth_drop min_def)
qed

lemma addToneMark_at:
  assumes "1 \<le> tone" and "tone \<le> 4" and "i < length s" and "is_markable (s ! i)"
    and "fallback_vowel s (find_vowel s vowelsOrder) = (int i, [s ! i])"
  shows "\<exists>m mark. combining_mark tone = Some mark \<and> canonical_decomposition m = Some (s ! i, mark)
           \<and> m \<noteq> s ! i \<and> addToneMark s tone = s[i := m]"
proof -
  obtain marks m mark where r: "toneMap [s ! i] = Some marks" "marks ! nat (tone - 1) = [m]"
      "combining_mark tone = Some mark" "canonical_decomposition m = Some (s ! i, mark)" "m \<noteq> s ! i"
    using toneMap_row [OF assms(4) assms(1,2)] by blast
  have "addToneMark s tone = slice s 0 (int i) @ [m] @ slice_from s (int i + 1)"
    using assms(1,2,5) r(1,2) by (simp add: addToneMark_def)
  then have "addToneMark s tone = s[i := m]"
    using assms(3) by (simp only: slices_update)
  with r show ?thesis by blast
qed

section \<open>Tone mark placement\<close>

lemma marked_atI:
  assumes "1 \<le> tone" and "tone \<le> 4" and "i < length s" and "is_markable (s ! i)"
    and "fallback_vowel s (find_vowel s vowelsOrder) = (int i, [s ! i])"
  shows "marked_at (addToneMark s tone) s i tone"
proof -
  obtain m mark where r: "combining_mark tone = Some mark"
      "canonical_decomposition m = Some (s ! i, mark)" "m \<noteq> s ! i" "addToneMark s tone = s[i := m]"
    using addToneMark_at [OF assms] by blast
  have "addToneMark s tone ! i = m" using r(4) assms(3) by simp
  with r assms(3) show ?thesis by (simp add: marked_at_def)
qed

text \<open>
  Claim C1. For every base string and every tone from 1 to 4, \<^verbatim>\<open>addToneMark\<close> marks the
  leftmost occurrence of the first letter among a, A, o, O, e, E (in that order) that
  occurs in the string; when none of the six occurs, it marks the rightmost occurrence of
  any of i, I, u, U, u-diaeresis, U-diaeresis. In particular "hao" with tone 3 gives
  "h", a-caron, "o"; "liu" with tone 2 gives "li", u-acute; "gui" with tone 4 gives "gu",
  i-grave.
\<close>

theorem addToneMark_vowel_choice:
  assumes "1 \<le> tone" and "tone \<le> 4"
  shows "(\<forall>k i. k < length priority_letters \<and> (\<forall>j<k. priority_letters ! j \<notin> set base)
              \<and> i < length base \<and> base ! i = priority_letters ! k
              \<and> (\<forall>j<i. base ! j \<noteq> priority_letters ! k)
            \<longrightarrow> marked_at (addToneMark base tone) base i tone)
       \<and> (\<forall>i. (\<forall>v\<in>set priority_letters. v \<notin> set base)
              \<and> i < length base \<and> base ! i \<in> set fallback_letters
              \<and> (\<forall>j. i < j \<and> j < length base \<longrightarrow> base ! j \<notin> set fallback_letters)
            \<longrightarrow> marked_at (addToneMark base tone) base i tone)
       \<and> addToneMark (ascii ''hao'') 3 = [0x68, 0x1CE, 0x6F]
       \<and> addToneMark (ascii ''liu'') 2 = [0x6C, 0x69, 0xFA]
       \<and> addToneMark (ascii ''gui'') 4 = [0x67, 0x75, 0xEC]"
proof (intro conjI allI impI)
  fix k i
  assume a: "k < length priority_letters \<and> (\<forall>j<k. priority_letters ! j \<notin> set base)
              \<and> i < length base \<and> base ! i = priority_letters ! k
              \<and> (\<forall>j<i. base ! j \<noteq> priority_letters ! k)"
  then have "fallback_vowel base (find_vowel base vowelsOrder) = (int i, [base ! i])"
    by (intro fallback_vowel_priority [of k]) auto
  moreover have "is_markable (base ! i)"
    using a by (simp add: is_markable_def)
  ultimately show "marked_at (addToneMark base tone) base i tone"
    using assms a by (intro marked_atI) auto
next
  fix i
  assume a: "(\<forall>v\<in>set priority_letters. v \<notin> set base)
              \<and> i < length base \<and> base ! i \<in> set fallback_letters
              \<and> (\<forall>j. i < j \<and> j < length base \<longrightarrow> base ! j \<notin> set fallback_letters)"
  then have "fallback_vowel base (find_vowel base vowelsOrder) = (int i, [base ! i])"
    by (intro fallback_vowel_last) (auto simp: is_iu_fallback)
  moreover have "is_markable (base ! i)"
    using a by (simp add: is_markable_def)
  ultimately show "marked_at (addToneMark base tone) base i tone"
    using assms a by (intro marked_atI) auto
next
  show "addToneMark (ascii ''hao'') 3 = [0x68, 0x1CE, 0x6F]"
    by (simp add: addToneMark_def ascii_def vowelsOrder_def indexOf_def fallback_vowel_def
        toneMap_def slice_def slice_from_def slice_index_def)
  show "addToneMark (ascii ''liu'') 2 = [0x6C, 0x69, 0xFA]"
    by (simp add: addToneMark_def ascii_def vowelsOrder_def indexOf_def fallback_vowel_def
        toneMap_def slice_def slice_from_def slice_index_def match_iu_def is_iu_def lastIndexOf_def)
  show "addToneMark (ascii ''gui'') 4 = [0x67, 0x75, 0xEC]"
    by (simp add: addToneMark_def ascii_def vowelsOrder_def indexOf_def fallback_vowel_def
        toneMap_def slice_def slice_from_def slice_index_def match_iu_def is_iu_def lastIndexOf_def)
qed

theorem addToneMark_vowel_choice_witness:
  "(1::int) \<le> 3 \<and> (3::int) \<le> 4
   \<and> marked_at (addToneMark (ascii ''hao'') 3) (ascii ''hao'') 1 3
   \<and> marked_at (addToneMark (ascii ''liu'') 3) (ascii ''liu'') 2 3"
proof -
  have t: "(1::int) \<le> 3" "(3::int) \<le> 4" by simp_all
  have p: "(0::nat) < length priority_letters \<and> (\<forall>j<0. priority_letters ! j \<notin> set (ascii ''hao''))
      \<and> (1::nat) < length (ascii ''hao'') \<and> ascii ''hao'' ! 1 = priority_letters ! 0
      \<and> (\<forall>j<1. ascii ''hao'' ! j \<noteq> priority_letters ! 0)"
    by (simp add: priority_letters_def ascii_def)
  have f: "(\<forall>v\<in>set priority_letters. v \<notin> set (ascii ''liu''))
      \<and> (2::nat) < length (ascii ''liu'') \<and> ascii ''liu'' ! 2 \<in> set fallback_letters
      \<and> (\<forall>j. 2 < j \<and> j < length (ascii ''liu'') \<longrightarrow> ascii ''liu'' ! j \<notin> set fallback_letters)"
    by (simp add: priority_letters_def fallback_letters_def ascii_def)
  from addToneMark_vowel_choice [OF t, of "ascii ''hao''"] p
  have 1: "marked_at (addToneMark (ascii ''hao'') 3) (ascii ''hao'') 1 3" by blast
  from addToneMark_vowel_choice [OF t, of "ascii ''liu''"] f
  have 2: "marked_at (addToneMark (ascii ''liu'') 3) (ascii ''liu'') 2 3" by blast
  from t 1 2 show ?thesis by simp
qed

text \<open>
  Claim C2. For every base string that contains one of the twelve markable letters and
  every tone from 1 to 4, the result of \<^verbatim>\<open>addToneMark\<close> is the base with exactly one
  letter replaced: a markable letter, by that letter with the diacritic of the tone
  (macron, acute, caron, grave for the tones 1, 2, 3, 4), every other position unchanged.
  A base that contains none of the twelve letters is returned unchanged.
\<close>

theorem addToneMark_one_substitution:
  assumes "1 \<le> tone" and "tone \<le> 4"
  shows "((\<exists>c\<in>set base. is_markable c) \<longrightarrow>
            (\<exists>i<length base. is_markable (base ! i) \<and> marked_at (addToneMark base tone) base i tone))
       \<and> ((\<forall>c\<in>set base. \<not> is_markable c) \<longrightarrow> addToneMark base tone = base)"
proof (intro conjI impI)
  assume "\<forall>c\<in>set base. \<not> is_markable c"
  then have "fallback_vowel base (find_vowel base vowelsOrder) = (- 1, [])"
    by (rule fallback_vowel_nothing)
  then show "addToneMark base tone = base" by (simp add: addToneMark_def)
next
  assume ex: "\<exists>c\<in>set base. is_markable c"
  show "\<exists>i<length base. is_markable (base ! i) \<and> marked_at (addToneMark base tone) base i tone"
  proof (cases "\<exists>v\<in>set priority_letters. v \<in> set base")
    case True
    then obtain k where k: "k < length priority_letters" "priority_letters ! k \<in> set base"
        "\<forall>j<k. priority_letters ! j \<notin> set base"
      using first_satisfying [of priority_letters "\<lambda>v. v \<in> set base"] by blast
    then have "\<exists>c\<in>set base. c = priority_letters ! k" by simp
    then obtain i where i: "i < length base" "base ! i = priority_letters ! k"
        "\<forall>j<i. base ! j \<noteq> priority_letters ! k"
      using first_satisfying [of base "\<lambda>c. c = priority_letters ! k"] by blast
    have m: "is_markable (base ! i)" using i(2) k(1) by (simp add: is_markable_def)
    have "fallback_vowel base (find_vowel base vowelsOrder) = (int i, [base ! i])"
      using k(1,3) i by (rule fallback_vowel_priority)
    with assms i(1) m have "marked_at (addToneMark base tone) base i tone"
      by (intro marked_atI)
    with i(1) m show ?thesis by blast
  next
    case False
    with ex have "\<exists>c\<in>set base. is_iu c" by (auto simp: is_markable_def is_iu_fallback)
    then obtain i where i: "i < length base" "is_iu (base ! i)"
        "\<forall>j. i < j \<and> j < length base \<longrightarrow> \<not> is_iu (base ! j)"
      using last_satisfying [of base is_iu] by blast
    have m: "is_markable (base ! i)" using i(2) by (simp add: is_markable_def is_iu_fallback)
    have "fallback_vowel base (find_vowel base vowelsOrder) = (int i, [base ! i])"
      using False i by (intro fallback_vowel_last) auto
    with assms i(1) m have "marked_at (addToneMark base tone) base i tone"
      by (intro marked_atI)
    with i(1) m show ?thesis by blast
  qed
qed

theorem addToneMark_one_substitution_witness:
  "(1::int) \<le> 1 \<and> (1::int) \<le> 4
   \<and> (\<exists>c\<in>set (ascii ''ma''). is_markable c)
   \<and> (\<exists>i<length (ascii ''ma''). is_markable (ascii ''ma'' ! i)
         \<and> marked_at (addToneMark (ascii ''ma'') 1) (ascii ''ma'') i 1)
   \<and> \<not> (\<exists>c\<in>set (ascii ''ng''). is_markable c)
   \<and> addToneMark (ascii ''ng'') 1 = ascii ''ng''"
proof -
  have t: "(1::int) \<le> 1" "(1::int) \<le> 4" by simp_all
  have a: "\<exists>c\<in>set (ascii ''ma''). is_markable c"
    by (simp add: ascii_def is_markable_def priority_letters_def)
  have n: "\<forall>c\<in>set (ascii ''ng''). \<not> is_markable c"
    by (simp add: ascii_def is_markable_def priority_letters_def fallback_letters_def)
  from addToneMark_one_substitution [OF t, of "ascii ''ma''"] a
  have 1: "\<exists>i<length (ascii ''ma''). is_markable (ascii ''ma'' ! i)
         \<and> marked_at (addToneMark (ascii ''ma'') 1) (ascii ''ma'') i 1" by blast
  from addToneMark_one_substitution [OF t, of "ascii ''ng''"] n
  have 2: "addToneMark (ascii ''ng'') 1 = ascii ''ng''" by blast
  from t a n 1 2 show ?thesis by blast
qed

text \<open>
  Claim C8. For every base string and every tone value outside the range 1 to 4 (0
  included), \<^verbatim>\<open>addToneMark(base, tone)\<close> returns the base unchanged.
\<close>

theorem addToneMark_out_of_range:
  "tone < 1 \<or> tone > 4 \<Longrightarrow> addToneMark base tone = base"
  by (simp add: addToneMark_def)

theorem addToneMark_out_of_range_witness:
  "((0::int) < 1 \<or> (0::int) > 4) \<and> addToneMark [0x6D, 0x61] 0 = [0x6D, 0x61]"
  using addToneMark_out_of_range [of 0 "[0x6D, 0x61]"] by simp

section \<open>The matcher of numeric romanizations\<close>

lemma digit_not_letter: "is_digit d \<Longrightarrow> \<not> is_letter d"
  by (auto simp: is_digit_def is_letter_def word_le_def)

lemma match_pinyin_digit:
  assumes "b \<noteq> []" and "list_all is_letter b" and "is_digit d"
  shows "match_pinyin (b @ [d]) = Some (b, Some [d])"
proof -
  have tw: "takeWhile is_letter (b @ [d]) = b" and dw: "dropWhile is_letter (b @ [d]) = [d]"
    using assms(2,3) by (simp_all add: list_all_iff digit_not_letter)
  show ?thesis unfolding match_pinyin_def tw dw using assms(1,3) by simp
qed

lemma match_pinyin_shape:
  assumes "match_pinyin s = Some (b, t)"
  shows "conforms_upto 0x39 s"
proof -
  let ?base = "takeWhile is_letter s" and ?rest = "dropWhile is_letter s"
  have s: "s = ?base @ ?rest" by simp
  have l: "list_all is_letter ?base" by (auto simp: list_all_iff dest: set_takeWhileD)
  have ne: "?base \<noteq> []" using assms by (auto simp: match_pinyin_def Let_def split: if_splits)
  show ?thesis
  proof (cases ?rest)
    case Nil
    then have "s = ?base" using s by (metis append_Nil2)
    with l ne show ?thesis unfolding conforms_upto_def by metis
  next
    case (Cons d ds)
    with assms ne have d: "ds = []" "is_digit d"
      by (auto simp: match_pinyin_def Let_def split: if_splits list.splits)
    with Cons s have s': "s = ?base @ [d]" by metis
    then have "butlast s = ?base" "last s = d" by (metis butlast_snoc, metis last_snoc)
    with l ne d(2) s' show ?thesis
      unfolding conforms_upto_def is_digit_def by (metis snoc_eq_iff_butlast)
  qed
qed

lemma match_pinyin_None: "\<not> conforms_upto 0x39 s \<Longrightarrow> match_pinyin s = None"
  using match_pinyin_shape by (cases "match_pinyin s") auto

lemma parseInt10_digit: "is_digit d \<Longrightarrow> parseInt10 [d] = uint d - 0x30"
  by (simp add: parseInt10_def)

lemma digit_tone_eq:
  fixes d :: "16 word"
  shows "uint d - 0x30 = 1 \<longleftrightarrow> d = 0x31" "uint d - 0x30 = 2 \<longleftrightarrow> d = 0x32"
    "uint d - 0x30 = 3 \<longleftrightarrow> d = 0x33" "uint d - 0x30 = 4 \<longleftrightarrow> d = 0x34"
  by (auto simp: word_uint_eq_iff)

lemma color_digit:
  assumes "b \<noteq> []" and "list_all is_letter b" and "is_digit d"
  shows "color (getAccentedColoredPinyin (b @ [d]) cfg) =
     (if d = 0x31 then tone1 cfg else if d = 0x32 then tone2 cfg
      else if d = 0x33 then tone3 cfg else if d = 0x34 then tone4 cfg
      else tone0 cfg)"
  using assms
  by (simp add: getAccentedColoredPinyin_def match_pinyin_digit parseInt10_digit digit_tone_eq Let_def)

lemma high_digit:
  fixes d :: "16 word"
  assumes "0x35 \<le> d" and "d \<le> 0x39"
  shows "is_digit d" and "4 < uint d - 0x30"
  using assms by (auto simp: is_digit_def word_le_def)

section \<open>Parsing and colour resolution\<close>

lemma match_pinyin_Some_digit:
  assumes "match_pinyin s = Some (b, Some t)"
  shows "b \<noteq> [] \<and> list_all is_letter b \<and> (\<exists>d. is_digit d \<and> t = [d] \<and> s = b @ [d])"
proof -
  let ?base = "takeWhile is_letter s" and ?rest = "dropWhile is_letter s"
  have s: "s = ?base @ ?rest" by simp
  have l: "list_all is_letter ?base" by (auto simp: list_all_iff dest: set_takeWhileD)
  from assms have "b = ?base \<and> b \<noteq> [] \<and> (\<exists>d. is_digit d \<and> t = [d] \<and> ?rest = [d])"
    by (auto simp: match_pinyin_def Let_def split: if_splits list.splits)
  with s l show ?thesis by metis
qed

text \<open>
  Claim C4 says that every input outside the shape \<open><letters><optional digit 0-4>\<close> is
  returned whole with the neutral colour, for example "ma7". The matcher takes any decimal
  digit: "ma7" is outside the shape of the specification, and still its digit is stripped.
\<close>

theorem nonconforming_digit_counterexample:
  "\<not> spec_conforms (ascii ''ma7'')
   \<and> accented (getAccentedColoredPinyin (ascii ''ma7'') DEFAULT_SETTINGS) \<noteq> ascii ''ma7''"
  by (simp add: spec_conforms_def conforms_upto_def getAccentedColoredPinyin_def match_pinyin_def
      ascii_def is_letter_def is_digit_def parseInt10_def addToneMark_def)

text \<open>
  Claim C4, amended. For every input string that is not one or more letters followed by
  at most one decimal digit 0 to 9, \<^verbatim>\<open>getAccentedColoredPinyin\<close> returns the input itself
  as the accented text and \<^verbatim>\<open>tone0\<close> as the colour. The code has no raising path. The
  input "ma7" has that shape and yields the accented text "ma" with colour \<^verbatim>\<open>tone0\<close>.
\<close>

theorem unparseable_is_whole_input:
  "(\<not> conforms_upto 0x39 s \<longrightarrow>
      getAccentedColoredPinyin s cfg = \<lparr>accented = s, color = tone0 cfg\<rparr>)
   \<and> conforms_upto 0x39 (ascii ''ma7'')
   \<and> getAccentedColoredPinyin (ascii ''ma7'') cfg = \<lparr>accented = ascii ''ma'', color = tone0 cfg\<rparr>"
proof (intro conjI impI)
  assume "\<not> conforms_upto 0x39 s"
  then have "match_pinyin s = None" by (rule match_pinyin_None)
  then show "getAccentedColoredPinyin s cfg = \<lparr>accented = s, color = tone0 cfg\<rparr>"
    by (simp add: getAccentedColoredPinyin_def)
next
  show "conforms_upto 0x39 (ascii ''ma7'')"
    by (simp add: conforms_upto_def ascii_def is_letter_def)
  show "getAccentedColoredPinyin (ascii ''ma7'') cfg = \<lparr>accented = ascii ''ma'', color = tone0 cfg\<rparr>"
    by (simp add: getAccentedColoredPinyin_def match_pinyin_def ascii_def is_letter_def
        is_digit_def parseInt10_def addToneMark_def)
qed

theorem unparseable_is_whole_input_witness:
  "\<not> conforms_upto 0x39 (ascii ''ma12'')
   \<and> getAccentedColoredPinyin (ascii ''ma12'') DEFAULT_SETTINGS
       = \<lparr>accented = ascii ''ma12'', color = tone0 DEFAULT_SETTINGS\<rparr>"
proof -
  have n: "\<not> conforms_upto 0x39 (ascii ''ma12'')"
    by (simp add: conforms_upto_def ascii_def is_letter_def)
  with unparseable_is_whole_input [of "ascii ''ma12''" DEFAULT_SETTINGS] show ?thesis by blast
qed

text \<open>
  Claim C7. For every configuration, the colours of "ma1", "ma2", "ma3", "ma4" are
  \<^verbatim>\<open>tone1\<close>, \<^verbatim>\<open>tone2\<close>, \<^verbatim>\<open>tone3\<close>, \<^verbatim>\<open>tone4\<close>, and the colour of "ma" and of "ma0" is
  \<^verbatim>\<open>tone0\<close>. In general, letters followed by the digit 1, 2, 3 or 4 resolve to the colour
  of that tone, and every other input resolves to \<^verbatim>\<open>tone0\<close>.
\<close>

theorem tone_colour_resolution:
  "color (getAccentedColoredPinyin (ascii ''ma1'') cfg) = tone1 cfg
   \<and> color (getAccentedColoredPinyin (ascii ''ma2'') cfg) = tone2 cfg
   \<and> color (getAccentedColoredPinyin (ascii ''ma3'') cfg) = tone3 cfg
   \<and> color (getAccentedColoredPinyin (ascii ''ma4'') cfg) = tone4 cfg
   \<and> color (getAccentedColoredPinyin (ascii ''ma'') cfg) = tone0 cfg
   \<and> color (getAccentedColoredPinyin (ascii ''ma0'') cfg) = tone0 cfg
   \<and> (\<forall>base d. base \<noteq> [] \<and> list_all is_letter base \<and> is_digit d \<longrightarrow>
         color (getAccentedColoredPinyin (base @ [d]) cfg) =
           (if d = 0x31 then tone1 cfg else if d = 0x32 then tone2 cfg
            else if d = 0x33 then tone3 cfg else if d = 0x34 then tone4 cfg
            else tone0 cfg))
   \<and> (\<forall>s. \<not> (\<exists>base d. base \<noteq> [] \<and> list_all is_letter base \<and> is_digit d \<and> s = base @ [d]) \<longrightarrow>
         color (getAccentedColoredPinyin s cfg) = tone0 cfg)"
proof -
  have ev: "color (getAccentedColoredPinyin (ascii ''ma1'') cfg) = tone1 cfg"
    "color (getAccentedColoredPinyin (ascii ''ma2'') cfg) = tone2 cfg"
    "color (getAccentedColoredPinyin (ascii ''ma3'') cfg) = tone3 cfg"
    "color (getAccentedColoredPinyin (ascii ''ma4'') cfg) = tone4 cfg"
    "color (getAccentedColoredPinyin (ascii ''ma'') cfg) = tone0 cfg"
    "color (getAccentedColoredPinyin (ascii ''ma0'') cfg) = tone0 cfg"
    by (simp_all add: getAccentedColoredPinyin_def match_pinyin_def ascii_def is_letter_def
        is_digit_def parseInt10_def)
  have dig: "\<forall>base d. base \<noteq> [] \<and> list_all is_letter base \<and> is_digit d \<longrightarrow>
         color (getAccentedColoredPinyin (base @ [d]) cfg) =
           (if d = 0x31 then tone1 cfg else if d = 0x32 then tone2 cfg
            else if d = 0x33 then tone3 cfg else if d = 0x34 then tone4 cfg
            else tone0 cfg)"
    using color_digit by blast
  have other: "\<forall>s. \<not> (\<exists>base d. base \<noteq> [] \<and> list_all is_letter base \<and> is_digit d \<and> s = base @ [d]) \<longrightarrow>
         color (getAccentedColoredPinyin s cfg) = tone0 cfg"
  proof (intro allI impI)
    fix s
    assume n: "\<not> (\<exists>base d. base \<noteq> [] \<and> list_all is_letter base \<and> is_digit d \<and> s = base @ [d])"
    show "color (getAccentedColoredPinyin s cfg) = tone0 cfg"
    proof (cases "match_pinyin s")
      case None
      then show ?thesis by (simp add: getAccentedColoredPinyin_def)
    next
      case (Some r)
      obtain b t where r: "r = (b, t)" by (cases r)
      show ?thesis
      proof (cases t)
        case None
        with Some r show ?thesis by (simp add: getAccentedColoredPinyin_def)
      next
        case (Some u)
        with \<open>match_pinyin s = Some r\<close> r have "match_pinyin s = Some (b, Some u)" by simp
        from match_pinyin_Some_digit [OF this] n show ?thesis by blast
      qed
    qed
  qed
  from ev dig other show ?thesis by blast
qed

theorem tone_colour_resolution_witness:
  "ascii ''zhong'' \<noteq> [] \<and> list_all is_letter (ascii ''zhong'') \<and> is_digit 0x31
   \<and> color (getAccentedColoredPinyin (ascii ''zhong'' @ [0x31]) DEFAULT_SETTINGS) = ascii ''blue''
   \<and> \<not> (\<exists>base d. base \<noteq> [] \<and> list_all is_letter base \<and> is_digit d \<and> [] = base @ [d])
   \<and> color (getAccentedColoredPinyin [] DEFAULT_SETTINGS) = ascii ''gray''"
proof -
  have h: "ascii ''zhong'' \<noteq> [] \<and> list_all is_letter (ascii ''zhong'') \<and> is_digit 0x31"
    by (simp add: ascii_def is_letter_def is_digit_def)
  have e: "\<not> (\<exists>base d. base \<noteq> [] \<and> list_all is_letter base \<and> is_digit d \<and> [] = base @ [d])"
    by simp
  note t = tone_colour_resolution [of DEFAULT_SETTINGS]
  from t h have 1: "color (getAccentedColoredPinyin (ascii ''zhong'' @ [0x31]) DEFAULT_SETTINGS)
      = tone1 DEFAULT_SETTINGS"
    by (metis (no_types, lifting))
  from t e have 2: "color (getAccentedColoredPinyin [] DEFAULT_SETTINGS) = tone0 DEFAULT_SETTINGS"
    by blast
  from h e 1 2 show ?thesis by (simp add: DEFAULT_SETTINGS_def)
qed

text \<open>
  Claim C10. For every input of one or more letters followed by one digit from 5 to 9,
  the matcher accepts the input, the accented text is the letters alone with no diacritic,
  and the colour is \<^verbatim>\<open>tone0\<close>.
\<close>

theorem high_digit_is_stripped:
  assumes "base \<noteq> []" and "list_all is_letter base" and "0x35 \<le> d" and "d \<le> 0x39"
  shows "match_pinyin (base @ [d]) = Some (base, Some [d])
       \<and> getAccentedColoredPinyin (base @ [d]) cfg = \<lparr>accented = base, color = tone0 cfg\<rparr>"
proof -
  have d: "is_digit d" "4 < uint d - 0x30" using assms(3,4) by (rule high_digit)+
  have m: "match_pinyin (base @ [d]) = Some (base, Some [d])"
    using assms(1,2) d(1) by (rule match_pinyin_digit)
  have "parseInt10 [d] = uint d - 0x30" using d(1) by (rule parseInt10_digit)
  with d(2) m show ?thesis
    by (simp add: getAccentedColoredPinyin_def addToneMark_def Let_def)
qed

theorem high_digit_is_stripped_witness:
  "ascii ''ma'' \<noteq> [] \<and> list_all is_letter (ascii ''ma'') \<and> (0x35::16 word) \<le> 0x39 \<and> (0x39::16 word) \<le> 0x39
   \<and> match_pinyin (ascii ''ma'' @ [0x39]) = Some (ascii ''ma'', Some [0x39])
   \<and> getAccentedColoredPinyin (ascii ''ma'' @ [0x39]) DEFAULT_SETTINGS
       = \<lparr>accented = ascii ''ma'', color = ascii ''gray''\<rparr>"
proof -
  have h: "ascii ''ma'' \<noteq> []" "list_all is_letter (ascii ''ma'')" "(0x35::16 word) \<le> 0x39"
    "(0x39::16 word) \<le> 0x39"
    by (simp_all add: ascii_def is_letter_def)
  from high_digit_is_stripped [OF h, of DEFAULT_SETTINGS] h show ?thesis
    by (simp add: DEFAULT_SETTINGS_def)
qed

section \<open>The scanning loop\<close>

lemma codePointAt_unit: "codePointAt [c] 0 = Some (unat c)"
  by (simp add: codePointAt_def)

lemma unat_unit_le: "unat (c::16 word) \<le> 0xffff"
proof -
  have "unat c < 2 ^ 16" using unsigned_less [of c] by simp
  then show ?thesis by simp
qed

lemma charSize_of_unit: "charSize_of [c] = 1"
  using unat_unit_le [of c] by (simp add: charSize_of_def codePointAt_unit)

lemma loop_body_eq:
  "loop_body pinyin cfg buf pos builder =
     (if pos < length buf then
        Inr (Suc pos,
             if isChineseChar [buf ! pos]
             then builder @ [(pos, Suc pos, decoration_for pinyin cfg [buf ! pos])]
             else builder)
      else Inl TypeError)"
  by (simp add: loop_body_def char_at_def charSize_of_unit decoration_for_def Let_def)

lemma scan_eq:
  "scan pinyin cfg buf hi pos builder =
     (if pos < hi \<and> length buf < hi then Inl TypeError
      else Inr (builder @
        map (\<lambda>i. (i, Suc i, decoration_for pinyin cfg [buf ! i]))
          (filter (\<lambda>i. isChineseChar [buf ! i]) [pos..<hi])))"
proof (induction pinyin cfg buf hi pos builder rule: scan.induct)
  case (1 pinyin cfg buf hi pos builder)
  show ?case
  proof (cases "pos < hi")
    case False
    then show ?thesis by (simp add: scan.simps [of _ _ _ hi pos])
  next
    case True
    show ?thesis
    proof (cases "pos < length buf")
      case False
      with True show ?thesis
        by (simp add: scan.simps [of _ _ _ hi pos] loop_body_eq)
    next
      case inside: True
      let ?b = "if isChineseChar [buf ! pos]
             then builder @ [(pos, Suc pos, decoration_for pinyin cfg [buf ! pos])]
             else builder"
      have lb: "loop_body pinyin cfg buf pos builder = Inr (Suc pos, ?b)"
        using inside by (simp add: loop_body_eq)
      have step: "scan pinyin cfg buf hi pos builder = scan pinyin cfg buf hi (Suc pos) ?b"
        using True lb by (simp add: scan.simps [of _ _ _ hi pos])
      have ih: "scan pinyin cfg buf hi (Suc pos) ?b =
         (if Suc pos < hi \<and> length buf < hi then Inl TypeError
          else Inr (?b @
            map (\<lambda>i. (i, Suc i, decoration_for pinyin cfg [buf ! i]))
              (filter (\<lambda>i. isChineseChar [buf ! i]) [Suc pos..<hi])))"
        using True lb by (rule "1.IH") simp_all
      have upt: "[pos..<hi] = pos # [Suc pos..<hi]" using True by (rule upt_conv_Cons)
      show ?thesis
      proof (cases "length buf < hi")
        case True
        with inside have "Suc pos < hi" by simp
        with step ih True \<open>pos < hi\<close> show ?thesis by simp
      next
        case False
        with step ih upt show ?thesis by simp
      qed
    qed
  qed
qed

lemma computeDecorations_eq:
  "computeDecorations pinyin v cfg =
     (if viewport_from v < viewport_to v \<and> length (doc v) < viewport_to v then Inl TypeError
      else Inr (map (\<lambda>i. (i, Suc i, decoration_for pinyin cfg [doc v ! i]))
                 (filter (\<lambda>i. isChineseChar [doc v ! i]) [viewport_from v..<viewport_to v])))"
  by (simp add: computeDecorations_def scan_eq)

lemma isChineseChar_unit: "isChineseChar [c] \<longleftrightarrow> 0x4E00 \<le> c \<and> c \<le> 0x9FFF"
  by (simp add: isChineseChar_def)

lemma upt_9: "[0..<9] = [0, 1, 2, 3, 4, 5, 6, 7, 8]"
  by (simp add: upt_conv_Cons)

lemma sample_decorations_eq:
  "computeDecorations sample_pinyin sample_view DEFAULT_SETTINGS = Inr sample_decorations"
  by (simp add: computeDecorations_eq sample_view_def sample_decorations_def ascii_def upt_9
      isChineseChar_unit decoration_for_def sample_pinyin_def DEFAULT_SETTINGS_def
      getAccentedColoredPinyin_def match_pinyin_def is_letter_def is_digit_def parseInt10_def
      addToneMark_def vowelsOrder_def indexOf_def fallback_vowel_def toneMap_def
      slice_def slice_from_def slice_index_def)

section \<open>Annotations\<close>

lemma chinese_unit_width:
  assumes "i < length buf" and "isChineseChar [buf ! i]"
  shows "character_span buf i (Suc i)"
proof -
  have r: "0x4E00 \<le> buf ! i" "buf ! i \<le> 0x9FFF" using assms(2) by (simp_all add: isChineseChar_unit)
  then have lt: "buf ! i < 0xD800" by (simp add: word_le_def word_less_def)
  then have nl: "\<not> (0xDC00 \<le> buf ! i \<and> buf ! i \<le> 0xDFFF)" by (simp add: word_le_def word_less_def)
  have "codePointAt buf i = Some (unat (buf ! i))"
    using assms(1) lt by (simp add: codePointAt_def)
  then have "char_width_at buf i = 1"
    using unat_unit_le [of "buf ! i"] by (simp add: char_width_at_def)
  with assms(1) nl show ?thesis by (simp add: character_span_def)
qed

lemma sorted_wrt_spans:
  "sorted_wrt (\<lambda>a b. fst a < fst b \<and> fst (snd a) \<le> fst b)
     (map (\<lambda>i. (i, Suc i, f i)) (filter P [m..<n]))"
proof -
  have "sorted_wrt (<) (filter P [m..<n])"
    by (rule sorted_wrt_filter) (rule sorted_wrt_upt)
  then show ?thesis by (simp add: sorted_wrt_map Suc_le_eq)
qed

text \<open>
  Claim C5. For every range and buffer content, the annotations that one pass of
  \<^verbatim>\<open>computeDecorations\<close> produces have strictly increasing start offsets, no two of them
  overlap, and each one covers the span of exactly one character of the buffer, inside
  the range. A pass over a range that ends inside the buffer does produce its annotations;
  only a range that runs past the end of the buffer makes the pass throw.
\<close>

theorem annotations_increasing_disjoint:
  "(viewport_to v \<le> length (doc v) \<longrightarrow> (\<exists>ds. computeDecorations pinyin v cfg = Inr ds))
   \<and> (\<forall>ds. computeDecorations pinyin v cfg = Inr ds \<longrightarrow>
         sorted_wrt (\<lambda>a b. fst a < fst b \<and> fst (snd a) \<le> fst b) ds
         \<and> list_all (\<lambda>(s, e, d). viewport_from v \<le> s \<and> e \<le> viewport_to v
                          \<and> character_span (doc v) s e) ds)"
proof (intro conjI allI impI)
  assume "viewport_to v \<le> length (doc v)"
  then show "\<exists>ds. computeDecorations pinyin v cfg = Inr ds"
    by (simp add: computeDecorations_eq)
next
  fix ds
  assume a: "computeDecorations pinyin v cfg = Inr ds"
  let ?ps = "filter (\<lambda>i. isChineseChar [doc v ! i]) [viewport_from v..<viewport_to v]"
  from a have ds: "ds = map (\<lambda>i. (i, Suc i, decoration_for pinyin cfg [doc v ! i])) ?ps"
    and ok: "\<not> (viewport_from v < viewport_to v \<and> length (doc v) < viewport_to v)"
    by (auto simp: computeDecorations_eq split: if_splits)
  show "sorted_wrt (\<lambda>a b. fst a < fst b \<and> fst (snd a) \<le> fst b) ds"
    unfolding ds by (rule sorted_wrt_spans)
  have "\<forall>i\<in>set ?ps. viewport_from v \<le> i \<and> Suc i \<le> viewport_to v
          \<and> character_span (doc v) i (Suc i)"
  proof
    fix i assume i: "i \<in> set ?ps"
    then have r: "viewport_from v \<le> i" "i < viewport_to v" "isChineseChar [doc v ! i]" by auto
    with ok have "i < length (doc v)" by simp
    with r show "viewport_from v \<le> i \<and> Suc i \<le> viewport_to v \<and> character_span (doc v) i (Suc i)"
      by (simp add: chinese_unit_width)
  qed
  then show "list_all (\<lambda>(s, e, d). viewport_from v \<le> s \<and> e \<le> viewport_to v
                          \<and> character_span (doc v) s e) ds"
    unfolding ds by (simp add: list_all_iff)
qed

theorem annotations_increasing_disjoint_witness:
  "viewport_to sample_view \<le> length (doc sample_view)
   \<and> computeDecorations sample_pinyin sample_view DEFAULT_SETTINGS = Inr sample_decorations
   \<and> sorted_wrt (\<lambda>a b. fst a < fst b \<and> fst (snd a) \<le> fst b) sample_decorations
   \<and> list_all (\<lambda>(s, e, d). viewport_from sample_view \<le> s \<and> e \<le> viewport_to sample_view
                    \<and> character_span (doc sample_view) s e) sample_decorations"
proof -
  have h: "viewport_to sample_view \<le> length (doc sample_view)"
    by (simp add: sample_view_def ascii_def)
  from annotations_increasing_disjoint [of sample_view sample_pinyin DEFAULT_SETTINGS]
    sample_decorations_eq h
  show ?thesis by blast
qed

text \<open>
  Claim C3 says that at a character above U+FFFF the loop computes the width 2 and
  advances by 2. The loop takes the width from \<^verbatim>\<open>text[pos]\<close>, which is one unit, never a
  pair: for the character U+20000 (the units D840, DC00), which is two units wide, the
  width it computes is 1 and the next position is 1.
\<close>

theorem surrogate_pair_width_one:
  "codePointAt [0xD840, 0xDC00] 0 = Some 0x20000
   \<and> char_width_at [0xD840, 0xDC00] 0 = 2
   \<and> char_at [0xD840, 0xDC00] 0 = Some [0xD840]
   \<and> charSize_of [0xD840] = 1
   \<and> loop_body pinyin cfg [0xD840, 0xDC00] 0 [] = Inr (1, [])"
  by (simp add: codePointAt_def char_width_at_def char_at_def charSize_of_def loop_body_def
      isChineseChar_def)

lemma single_unit_chinese:
  "isChineseChar [u] \<longleftrightarrow> (\<exists>cp. codePointAt [u] 0 = Some cp \<and> 0x4E00 \<le> cp \<and> cp \<le> 0x9FFF)"
  by (simp add: isChineseChar_unit codePointAt_unit word_le_nat_alt)

lemma single_pair_chinese:
  assumes "char_width_at [h, l] 0 = 2"
  shows "isChineseChar [h, l] \<longleftrightarrow> (\<exists>cp. codePointAt [h, l] 0 = Some cp \<and> 0x4E00 \<le> cp \<and> cp \<le> 0x9FFF)"
proof -
  have sur: "0xD800 \<le> h \<and> h \<le> 0xDBFF \<and> 0xDC00 \<le> l \<and> l \<le> 0xDFFF"
  proof (rule ccontr)
    assume "\<not> ?thesis"
    then have "codePointAt [h, l] 0 = Some (unat h)"
      by (auto simp: codePointAt_def Let_def not_le)
    then have "char_width_at [h, l] 0 = 1"
      using unat_unit_le [of h] by (simp add: char_width_at_def)
    with assms show False by simp
  qed
  then have "codePointAt [h, l] 0
      = Some ((unat h - 0xD800) * 0x400 + (unat l - 0xDC00) + 0x10000)"
    by (auto simp: codePointAt_def Let_def not_le [symmetric])
  moreover have "\<not> isChineseChar [h, l]"
    using sur by (auto simp: isChineseChar_def word_le_def)
  ultimately show ?thesis by simp
qed

lemma single_character_cases:
  assumes "is_single_character c"
  shows "(\<exists>u. c = [u]) \<or> (\<exists>h l. c = [h, l] \<and> char_width_at c 0 = 2)"
proof -
  have w: "char_width_at c 0 = 1 \<or> char_width_at c 0 = 2"
    by (simp add: char_width_at_def split: option.splits)
  from assms have c: "c \<noteq> []" "length c = char_width_at c 0"
    by (simp_all add: is_single_character_def)
  from w show ?thesis
  proof
    assume "char_width_at c 0 = 1"
    with c have "length c = 1" by simp
    then show ?thesis by (auto simp: length_Suc_conv)
  next
    assume 2: "char_width_at c 0 = 2"
    with c have "length c = Suc (Suc 0)" by simp
    then obtain h l where "c = [h, l]" by (auto simp: length_Suc_conv)
    with 2 show ?thesis by blast
  qed
qed

text \<open>
  Claim C6. The positions that a pass annotates are exactly the positions of the range
  whose character satisfies \<^verbatim>\<open>isChineseChar\<close>; for a single character, \<^verbatim>\<open>isChineseChar\<close> holds
  exactly when its code point lies between U+4E00 and U+9FFF; and the full scan of
  "I love" followed by a space, U+4E2D and U+6587 gives exactly two annotations, on the
  positions 7 and 8 of these two characters.
\<close>

theorem only_chinese_characters_annotated:
  "(\<forall>ds. computeDecorations pinyin v cfg = Inr ds \<longrightarrow>
       map fst ds = filter (\<lambda>i. isChineseChar [doc v ! i]) [viewport_from v..<viewport_to v])
   \<and> (\<forall>c. is_single_character c \<longrightarrow>
         (isChineseChar c \<longleftrightarrow> (\<exists>cp. codePointAt c 0 = Some cp \<and> 0x4E00 \<le> cp \<and> cp \<le> 0x9FFF)))
   \<and> computeDecorations pinyin sample_view cfg
       = Inr [(7, 8, decoration_for pinyin cfg [0x4E2D]), (8, 9, decoration_for pinyin cfg [0x6587])]"
proof (intro conjI allI impI)
  fix ds
  assume "computeDecorations pinyin v cfg = Inr ds"
  then have "ds = map (\<lambda>i. (i, Suc i, decoration_for pinyin cfg [doc v ! i]))
      (filter (\<lambda>i. isChineseChar [doc v ! i]) [viewport_from v..<viewport_to v])"
    by (auto simp: computeDecorations_eq split: if_splits)
  then show "map fst ds = filter (\<lambda>i. isChineseChar [doc v ! i]) [viewport_from v..<viewport_to v]"
    by (simp add: comp_def)
next
  fix c
  assume "is_single_character c"
  then have "(\<exists>u. c = [u]) \<or> (\<exists>h l. c = [h, l] \<and> char_width_at c 0 = 2)"
    by (rule single_character_cases)
  then show "isChineseChar c \<longleftrightarrow> (\<exists>cp. codePointAt c 0 = Some cp \<and> 0x4E00 \<le> cp \<and> cp \<le> 0x9FFF)"
    using single_unit_chinese single_pair_chinese by blast
next
  show "computeDecorations pinyin sample_view cfg
       = Inr [(7, 8, decoration_for pinyin cfg [0x4E2D]), (8, 9, decoration_for pinyin cfg [0x6587])]"
    by (simp add: computeDecorations_eq sample_view_def ascii_def upt_9 isChineseChar_unit)
qed

theorem only_chinese_characters_annotated_witness:
  "computeDecorations sample_pinyin sample_view DEFAULT_SETTINGS = Inr sample_decorations
   \<and> map fst sample_decorations
       = filter (\<lambda>i. isChineseChar [doc sample_view ! i]) [viewport_from sample_view..<viewport_to sample_view]
   \<and> map fst sample_decorations = [7, 8]
   \<and> is_single_character [0x4E2D] \<and> isChineseChar [0x4E2D]
   \<and> (\<exists>cp. codePointAt [0x4E2D] 0 = Some cp \<and> 0x4E00 \<le> cp \<and> cp \<le> 0x9FFF)
   \<and> is_single_character [0xD840, 0xDC00] \<and> \<not> isChineseChar [0xD840, 0xDC00]"
proof -
  note t = only_chinese_characters_annotated [of sample_pinyin sample_view DEFAULT_SETTINGS]
  have 1: "map fst sample_decorations
       = filter (\<lambda>i. isChineseChar [doc sample_view ! i]) [viewport_from sample_view..<viewport_to sample_view]"
    using t sample_decorations_eq by blast
  have 2: "map fst sample_decorations = [7, 8]" by (simp add: sample_decorations_def)
  have 3: "is_single_character [0x4E2D]" "isChineseChar [0x4E2D]"
    by (simp_all add: is_single_character_def char_width_at_def codePointAt_def isChineseChar_def)
  have 4: "\<exists>cp. codePointAt [0x4E2D] 0 = Some cp \<and> 0x4E00 \<le> cp \<and> cp \<le> 0x9FFF"
    using t 3 by blast
  have 5: "is_single_character [0xD840, 0xDC00]" "\<not> isChineseChar [0xD840, 0xDC00]"
    by (simp_all add: is_single_character_def char_width_at_def codePointAt_def isChineseChar_def)
  from sample_decorations_eq 1 2 3 4 5 show ?thesis by blast
qed

end
